theory Spec2Isabelle
  imports Main "HOL-Library.Word"
begin

unbundle bit_operations_syntax

section \<open>Data model\<close>

text \<open>
  Python \<open>bytes\<close> are lists of 8-bit values, Python \<open>int\<close> is \<open>int\<close>, Python \<open>str\<close> is
  \<open>string\<close>. Every exception that the functions of \<open>helper.py\<close> can raise is a value of
  \<open>py_error\<close>; a function that can raise returns \<open>py_error + 'a\<close>, with \<open>Inl\<close> the
  exception.
\<close>

type_synonym byte = "8 word"
type_synonym bytes = "byte list"

datatype py_error =
    IndexError
  | ValueError
  | OverflowError
  | RuntimeError
  | UnicodeEncodeError
  | UnicodeDecodeError

section \<open>Endian codec\<close>

subsection \<open>\<open>int.from_bytes\<close> and \<open>int.to_bytes\<close>\<close>

text \<open>\<open>int.from_bytes(b, 'little')\<close>: the first byte is the least significant.\<close>

fun from_bytes_little :: "bytes \<Rightarrow> int" where
  "from_bytes_little [] = 0"
| "from_bytes_little (b # bs) = uint b + 256 * from_bytes_little bs"

text \<open>The \<open>k\<close> low base-256 digits of \<open>n\<close>, least significant first.\<close>

fun le_digits :: "nat \<Rightarrow> int \<Rightarrow> bytes" where
  "le_digits 0 n = []"
| "le_digits (Suc k) n = word_of_int (n mod 256) # le_digits k (n div 256)"

text \<open>
  \<open>n.to_bytes(length, 'little')\<close> (unsigned): \<open>ValueError\<close> for a negative length,
  \<open>OverflowError\<close> for a negative \<open>n\<close> and for an \<open>n\<close> that does not fit in \<open>length\<close>
  bytes.
\<close>

definition to_bytes_little :: "int \<Rightarrow> int \<Rightarrow> py_error + bytes" where
  "to_bytes_little n len =
     (if len < 0 then Inl ValueError
      else if n < 0 then Inl OverflowError
      else if 256 ^ nat len \<le> n then Inl OverflowError
      else Inr (le_digits (nat len) n))"

text \<open>The big-endian variants are the little-endian ones with the bytes reversed.\<close>

definition from_bytes_big :: "bytes \<Rightarrow> int" where
  "from_bytes_big bs = from_bytes_little (rev bs)"

definition to_bytes_big :: "int \<Rightarrow> int \<Rightarrow> py_error + bytes" where
  "to_bytes_big n len =
     (case to_bytes_little n len of Inl e \<Rightarrow> Inl e | Inr bs \<Rightarrow> Inr (rev bs))"

subsection \<open>\<open>little_endian_to_int\<close> and \<open>int_to_little_endian\<close>\<close>

definition little_endian_to_int :: "bytes \<Rightarrow> int" where
  "little_endian_to_int b = from_bytes_little b"

definition int_to_little_endian :: "int \<Rightarrow> int \<Rightarrow> py_error + bytes" where
  "int_to_little_endian n len = to_bytes_little n len"

section \<open>Varint codec\<close>

text \<open>
  A stream is the list of the bytes that remain to be read. \<open>s.read(n)\<close> returns the
  next \<open>n\<close> bytes, or all the remaining ones when fewer than \<open>n\<close> are left, and advances
  the position.
\<close>

type_synonym stream = "bytes"

definition read :: "nat \<Rightarrow> stream \<Rightarrow> bytes \<times> stream" where
  "read n s = (take n s, drop n s)"

text \<open>
  \<open>read_varint\<close> returns its result together with the stream after the reads.
  \<open>s.read(1)[0]\<close> raises \<open>IndexError\<close> when the stream is exhausted.
\<close>

definition read_varint :: "stream \<Rightarrow> (py_error + int) \<times> stream" where
  "read_varint s =
     (let (b, s1) = read 1 s in
      case b of
        [] \<Rightarrow> (Inl IndexError, s1)
      | i # _ \<Rightarrow>
          if i = 0xfd then
            (let (bs, s2) = read 2 s1 in (Inr (little_endian_to_int bs), s2))
          else if i = 0xfe then
            (let (bs, s2) = read 4 s1 in (Inr (little_endian_to_int bs), s2))
          else if i = 0xff then
            (let (bs, s2) = read 8 s1 in (Inr (little_endian_to_int bs), s2))
          else (Inr (uint i), s1))"

text \<open>\<open>bytes([i])\<close>: \<open>ValueError\<close> unless \<open>0 <= i < 256\<close>.\<close>

definition bytes_of_int :: "int \<Rightarrow> py_error + bytes" where
  "bytes_of_int i = (if 0 \<le> i \<and> i < 256 then Inr [word_of_int i] else Inl ValueError)"

text \<open>\<open>b'\\xNN' + r\<close> where \<open>r\<close> may have raised.\<close>

definition prepend :: "byte \<Rightarrow> py_error + bytes \<Rightarrow> py_error + bytes" where
  "prepend m r = (case r of Inl e \<Rightarrow> Inl e | Inr bs \<Rightarrow> Inr (m # bs))"

definition encode_varint :: "int \<Rightarrow> py_error + bytes" where
  "encode_varint i =
     (if i < 0xfd then bytes_of_int i
      else if i < 0x10000 then prepend 0xfd (int_to_little_endian i 2)
      else if i < 0x100000000 then prepend 0xfe (int_to_little_endian i 4)
      else if i < 0x10000000000000000 then prepend 0xff (int_to_little_endian i 8)
      else Inl RuntimeError)"

section \<open>Hashing\<close>

text \<open>
  \<open>hashlib.sha256\<close> is SHA-256 (FIPS 180-4) on 32-bit words: the message is padded to a
  multiple of 64 bytes, and each 64-byte block updates a state of eight words.
\<close>

type_synonym word32 = "32 word"

type_synonym hstate =
  "word32 \<times> word32 \<times> word32 \<times> word32 \<times> word32 \<times> word32 \<times> word32 \<times> word32"

definition K256 :: "word32 list" where
  "K256 =
     [0x428a2f98, 0x71374491, 0xb5c0fbcf, 0xe9b5dba5,
      0x3956c25b, 0x59f111f1, 0x923f82a4, 0xab1c5ed5] @
     [0xd807aa98, 0x12835b01, 0x243185be, 0x550c7dc3,
      0x72be5d74, 0x80deb1fe, 0x9bdc06a7, 0xc19bf174] @
     [0xe49b69c1, 0xefbe4786, 0x0fc19dc6, 0x240ca1cc,
      0x2de92c6f, 0x4a7484aa, 0x5cb0a9dc, 0x76f988da] @
     [0x983e5152, 0xa831c66d, 0xb00327c8, 0xbf597fc7,
      0xc6e00bf3, 0xd5a79147, 0x06ca6351, 0x14292967] @
     [0x27b70a85, 0x2e1b2138, 0x4d2c6dfc, 0x53380d13,
      0x650a7354, 0x766a0abb, 0x81c2c92e, 0x92722c85] @
     [0xa2bfe8a1, 0xa81a664b, 0xc24b8b70, 0xc76c51a3,
      0xd192e819, 0xd6990624, 0xf40e3585, 0x106aa070] @
     [0x19a4c116, 0x1e376c08, 0x2748774c, 0x34b0bcb5,
      0x391c0cb3, 0x4ed8aa4a, 0x5b9cca4f, 0x682e6ff3] @
     [0x748f82ee, 0x78a5636f, 0x84c87814, 0x8cc70208,
      0x90befffa, 0xa4506ceb, 0xbef9a3f7, 0xc67178f2]"

definition H256 :: hstate where
  "H256 =
     (0x6a09e667, 0xbb67ae85, 0x3c6ef372, 0xa54ff53a, 0x510e527f, 0x9b05688c,
      0x1f83d9ab, 0x5be0cd19)"

definition rotr :: "nat \<Rightarrow> word32 \<Rightarrow> word32" where
  "rotr n x = drop_bit n x OR push_bit (32 - n) x"

definition Ch :: "word32 \<Rightarrow> word32 \<Rightarrow> word32 \<Rightarrow> word32" where
  "Ch x y z = (x AND y) XOR (NOT x AND z)"

definition Maj :: "word32 \<Rightarrow> word32 \<Rightarrow> word32 \<Rightarrow> word32" where
  "Maj x y z = (x AND y) XOR (x AND z) XOR (y AND z)"

definition Sigma0 :: "word32 \<Rightarrow> word32" where
  "Sigma0 x = rotr 2 x XOR rotr 13 x XOR rotr 22 x"

definition Sigma1 :: "word32 \<Rightarrow> word32" where
  "Sigma1 x = rotr 6 x XOR rotr 11 x XOR rotr 25 x"

definition sigma0 :: "word32 \<Rightarrow> word32" where
  "sigma0 x = rotr 7 x XOR rotr 18 x XOR drop_bit 3 x"

definition sigma1 :: "word32 \<Rightarrow> word32" where
  "sigma1 x = rotr 17 x XOR rotr 19 x XOR drop_bit 10 x"

text \<open>A big-endian word from (up to) four bytes, and back.\<close>

definition word_of_bytes :: "bytes \<Rightarrow> word32" where
  "word_of_bytes bs = foldl (\<lambda>w b. push_bit 8 w OR ucast b) 0 bs"

definition bytes_of_word :: "word32 \<Rightarrow> bytes" where
  "bytes_of_word w = [ucast (drop_bit 24 w), ucast (drop_bit 16 w), ucast (drop_bit 8 w), ucast w]"

fun block_words :: "nat \<Rightarrow> bytes \<Rightarrow> word32 list" where
  "block_words 0 bs = []"
| "block_words (Suc n) bs = word_of_bytes (take 4 bs) # block_words n (drop 4 bs)"

text \<open>The message schedule: 16 words of the block, extended to 64.\<close>

fun extend_schedule :: "nat \<Rightarrow> word32 list \<Rightarrow> word32 list" where
  "extend_schedule 0 w = w"
| "extend_schedule (Suc n) w =
     (let i = length w in
      extend_schedule n
        (w @ [sigma1 (w ! (i - 2)) + w ! (i - 7) + sigma0 (w ! (i - 15)) + w ! (i - 16)]))"

definition schedule :: "bytes \<Rightarrow> word32 list" where
  "schedule block = extend_schedule 48 (block_words 16 block)"

fun sha_round :: "hstate \<Rightarrow> word32 \<times> word32 \<Rightarrow> hstate" where
  "sha_round (a, b, c, d, e, f, g, h) (k, w) =
     (let t1 = h + Sigma1 e + Ch e f g + k + w;
          t2 = Sigma0 a + Maj a b c
      in (t1 + t2, a, b, c, d + t1, e, f, g))"

fun add_state :: "hstate \<Rightarrow> hstate \<Rightarrow> hstate" where
  "add_state (a, b, c, d, e, f, g, h) (a', b', c', d', e', f', g', h') =
     (a + a', b + b', c + c', d + d', e + e', f + f', g + g', h + h')"

definition compress :: "hstate \<Rightarrow> bytes \<Rightarrow> hstate" where
  "compress H block = add_state H (foldl sha_round H (zip K256 (schedule block)))"

definition sha_pad :: "bytes \<Rightarrow> bytes" where
  "sha_pad msg =
     msg @ [0x80] @ replicate ((119 - length msg mod 64) mod 64) 0
       @ rev (le_digits 8 (int (8 * length msg)))"

fun split_blocks :: "nat \<Rightarrow> bytes \<Rightarrow> bytes list" where
  "split_blocks 0 bs = []"
| "split_blocks (Suc n) bs = take 64 bs # split_blocks n (drop 64 bs)"

fun digest_bytes :: "hstate \<Rightarrow> bytes" where
  "digest_bytes (a, b, c, d, e, f, g, h) =
     concat (map bytes_of_word [a, b, c, d, e, f, g, h])"

definition sha256 :: "bytes \<Rightarrow> bytes" where
  "sha256 msg =
     (let p = sha_pad msg
      in digest_bytes (foldl compress H256 (split_blocks (length p div 64) p)))"

definition double_sha256 :: "bytes \<Rightarrow> bytes" where
  "double_sha256 s = sha256 (sha256 s)"

section \<open>Base58Check codec\<close>

text \<open>Sequencing of two steps of which the first may raise.\<close>

definition py_bind :: "py_error + 'a \<Rightarrow> ('a \<Rightarrow> py_error + 'b) \<Rightarrow> py_error + 'b" where
  "py_bind r f = (case r of Inl e \<Rightarrow> Inl e | Inr x \<Rightarrow> f x)"

text \<open>A bytes literal \<open>b'...'\<close> of ASCII characters.\<close>

definition ascii_bytes :: "string \<Rightarrow> bytes" where
  "ascii_bytes s = map of_char s"

definition BASE58_ALPHABET :: bytes where
  "BASE58_ALPHABET =
     ascii_bytes ''123456789ABCDEFGHJKLMNPQRSTUVWXYZabcdefghijkmnopqrstuvwxyz''"

text \<open>
  \<open>s.encode('ascii')\<close> and \<open>b.decode('ascii')\<close>: both raise on a character or byte
  outside the 7-bit range.
\<close>

definition encode_ascii :: "string \<Rightarrow> py_error + bytes" where
  "encode_ascii s =
     (if list_all (\<lambda>c. (of_char c :: nat) < 128) s then Inr (map of_char s)
      else Inl UnicodeEncodeError)"

definition decode_ascii :: "bytes \<Rightarrow> py_error + string" where
  "decode_ascii b =
     (if list_all (\<lambda>x. x < 128) b then Inr (map (\<lambda>x. char_of (unat x)) b)
      else Inl UnicodeDecodeError)"

text \<open>\<open>binascii.hexlify\<close>: two lower-case hexadecimal digits for each byte.\<close>

definition hex_char :: "nat \<Rightarrow> byte" where
  "hex_char d = ascii_bytes ''0123456789abcdef'' ! d"

definition hexlify :: "bytes \<Rightarrow> bytes" where
  "hexlify s = concat (map (\<lambda>b. [hex_char (unat b div 16), hex_char (unat b mod 16)]) s)"

text \<open>
  \<open>int(x, 16)\<close> on a bytes object of hexadecimal digits: \<open>ValueError\<close> when \<open>x\<close> is empty
  or holds a byte that is not a digit. (Signs, blanks, underscores and the prefix \<open>0x\<close>,
  which \<open>int\<close> also accepts, do not occur in what \<open>hexlify\<close> returns and are left out.)
\<close>

definition hex_digit_value :: "byte \<Rightarrow> int option" where
  "hex_digit_value c =
     (if 0x30 \<le> c \<and> c \<le> 0x39 then Some (uint c - 0x30)
      else if 0x61 \<le> c \<and> c \<le> 0x66 then Some (uint c - 0x61 + 10)
      else if 0x41 \<le> c \<and> c \<le> 0x46 then Some (uint c - 0x41 + 10)
      else None)"

fun int16_digits :: "bytes \<Rightarrow> int \<Rightarrow> py_error + int" where
  "int16_digits [] acc = Inr acc"
| "int16_digits (c # cs) acc =
     (case hex_digit_value c of
        None \<Rightarrow> Inl ValueError
      | Some d \<Rightarrow> int16_digits cs (16 * acc + d))"

definition int16 :: "bytes \<Rightarrow> py_error + int" where
  "int16 x = (if x = [] then Inl ValueError else int16_digits x 0)"

text \<open>The first loop of \<open>encode_base58\<close>: the number of zero bytes \<open>s\<close> starts with.\<close>

fun count_zeros :: "bytes \<Rightarrow> nat" where
  "count_zeros [] = 0"
| "count_zeros (c # s) = (if c = 0 then Suc (count_zeros s) else 0)"

text \<open>
  The second loop: while \<open>num > 0\<close>, divide by 58 and insert the digit of the remainder
  at the front of \<open>result\<close>.
\<close>

function base58_digits :: "int \<Rightarrow> bytes \<Rightarrow> bytes" where
  "base58_digits num result =
     (if num > 0
      then base58_digits (num div 58) (BASE58_ALPHABET ! nat (num mod 58) # result)
      else result)"
  by pat_completeness auto
termination
  by (relation "measure (\<lambda>(num, result). nat num)") auto

declare base58_digits.simps [simp del]

definition encode_base58 :: "bytes \<Rightarrow> py_error + bytes" where
  "encode_base58 s =
     (let count = count_zeros s;
          prefix = replicate count (of_char CHR ''1'')
      in py_bind (int16 (hexlify s)) (\<lambda>num. Inr (prefix @ base58_digits num [])))"

definition encode_base58_checksum :: "bytes \<Rightarrow> py_error + string" where
  "encode_base58_checksum s =
     py_bind (encode_base58 (s @ take 4 (double_sha256 s))) decode_ascii"

text \<open>\<open>BASE58_ALPHABET.index(c)\<close>: the first position of \<open>c\<close>, if any.\<close>

fun bytes_index :: "bytes \<Rightarrow> byte \<Rightarrow> nat option" where
  "bytes_index [] c = None"
| "bytes_index (x # xs) c = (if x = c then Some 0 else map_option Suc (bytes_index xs c))"

text \<open>The loop of \<open>decode_base58\<close>; \<open>index\<close> raises \<open>ValueError\<close> on a foreign byte.\<close>

fun decode_digits :: "bytes \<Rightarrow> int \<Rightarrow> py_error + int" where
  "decode_digits [] num = Inr num"
| "decode_digits (c # cs) num =
     (case bytes_index BASE58_ALPHABET c of
        None \<Rightarrow> Inl ValueError
      | Some d \<Rightarrow> decode_digits cs (num * 58 + int d))"

text \<open>
  \<open>decode_base58\<close> in two steps: the buffer \<open>num.to_bytes(25, byteorder='big')\<close>, and
  the slice \<open>[1:-4]\<close> of it.
\<close>

definition base58_buffer :: "string \<Rightarrow> py_error + bytes" where
  "base58_buffer s =
     py_bind (encode_ascii s) (\<lambda>cs.
     py_bind (decode_digits cs 0) (\<lambda>num. to_bytes_big num 25))"

definition strip_prefix_checksum :: "bytes \<Rightarrow> bytes" where
  "strip_prefix_checksum buf = drop 1 (take (length buf - 4) buf)"

definition decode_base58 :: "string \<Rightarrow> py_error + bytes" where
  "decode_base58 s = py_bind (base58_buffer s) (\<lambda>buf. Inr (strip_prefix_checksum buf))"

text \<open>
  \<open>encode_base58\<close> returns bytes and \<open>decode_base58\<close> takes a string: the text of an
  encoding is \<open>encode_base58(s).decode('ascii')\<close>, as in \<open>encode_base58_checksum\<close>.
\<close>

definition encode_base58_text :: "bytes \<Rightarrow> py_error + string" where
  "encode_base58_text s = py_bind (encode_base58 s) decode_ascii"

text \<open>
  The 20-byte hash of \<open>HelperTest.test_base58\<close>; with the prefix byte 0x6f it is the
  payload of the address \<open>mnrVtF8DWjMu839VW3rBfgYaAfKk8983Xf\<close> of that test.
\<close>

definition test_h160 :: bytes where
  "test_h160 =
     [0x50, 0x7b, 0x27, 0x41, 0x1c, 0xcf, 0x7f, 0x16, 0xf1, 0x02,
      0x97, 0xde, 0x6c, 0xef, 0x3f, 0x29, 0x16, 0x23, 0xed, 0xdf]"

section \<open>Properties of the endian codec\<close>

lemma uint_byte_of_mod: "uint (word_of_int (n mod 256) :: byte) = n mod 256"
  by (simp add: uint_word_of_int)

lemma length_le_digits: "length (le_digits k n) = k"
  by (induction k arbitrary: n) simp_all

lemma from_bytes_little_le_digits:
  "0 \<le> n \<Longrightarrow> n < 256 ^ k \<Longrightarrow> from_bytes_little (le_digits k n) = n"
proof (induction k arbitrary: n)
  case 0
  then show ?case by simp
next
  case (Suc k)
  have "0 \<le> n div 256" using Suc.prems(1) by simp
  moreover have "n div 256 < 256 ^ k"
    using Suc.prems by (simp add: div_less_iff_less_mult mult.commute)
  ultimately have "from_bytes_little (le_digits k (n div 256)) = n div 256"
    by (rule Suc.IH)
  then show ?case by (simp add: uint_byte_of_mod)
qed

lemma uint_byte_of_int: "0 \<le> v \<Longrightarrow> v < 256 \<Longrightarrow> uint (word_of_int v :: byte) = v"
  by (simp add: uint_word_of_int take_bit_int_eq_self)

text \<open>
  Claim C7. For every positive byte length \<open>len\<close> and every integer \<open>v\<close> with
  \<open>0 \<le> v \<le> 256 ^ len - 1\<close>, \<open>int_to_little_endian v len\<close> succeeds with \<open>len\<close> bytes and
  \<open>little_endian_to_int\<close> of these bytes is \<open>v\<close>.
\<close>

theorem int_to_little_endian_roundtrip:
  assumes "0 < len" and "0 \<le> v" and "v \<le> 256 ^ nat len - 1"
  shows "\<exists>bs. int_to_little_endian v len = Inr bs \<and> length bs = nat len
           \<and> little_endian_to_int bs = v"
proof -
  have lt: "v < 256 ^ nat len" using assms(3) by simp
  have "int_to_little_endian v len = Inr (le_digits (nat len) v)"
    using assms(1,2) lt by (simp add: int_to_little_endian_def to_bytes_little_def)
  moreover have "little_endian_to_int (le_digits (nat len) v) = v"
    unfolding little_endian_to_int_def using assms(2) lt by (rule from_bytes_little_le_digits)
  ultimately show ?thesis by (simp add: length_le_digits)
qed

theorem int_to_little_endian_roundtrip_witness:
  "(0::int) < 2 \<and> (0::int) \<le> 513 \<and> (513::int) \<le> 256 ^ nat 2 - 1
   \<and> (\<exists>bs. int_to_little_endian 513 2 = Inr bs \<and> length bs = nat 2
         \<and> little_endian_to_int bs = 513)"
  using int_to_little_endian_roundtrip [of 2 513] by simp

text \<open>
  Claim C8. For every positive length and every value with \<open>value \<ge> 256 ^ length\<close>,
  \<open>int_to_little_endian\<close> raises (the \<open>OverflowError\<close> of \<open>int.to_bytes\<close>) and returns no
  truncated encoding; in particular at value 256 and length 1.
\<close>

theorem int_to_little_endian_too_large:
  assumes "0 < len" and "256 ^ nat len \<le> v"
  shows "int_to_little_endian v len = Inl OverflowError"
proof -
  have "0 < (256::int) ^ nat len" by simp
  then have "\<not> v < 0" using assms(2) by linarith
  then show ?thesis
    using assms by (simp add: int_to_little_endian_def to_bytes_little_def)
qed

theorem int_to_little_endian_too_large_witness:
  "(0::int) < 1 \<and> (256::int) ^ nat 1 \<le> 256 \<and> int_to_little_endian 256 1 = Inl OverflowError"
  using int_to_little_endian_too_large [of 1 256] by simp

section \<open>Properties of the varint codec\<close>

lemma read_varint_Nil: "read_varint [] = (Inl IndexError, [])"
  by (simp add: read_varint_def read_def)

lemma read_varint_fd:
  "read_varint (0xfd # bs) = (Inr (little_endian_to_int (take 2 bs)), drop 2 bs)"
  by (simp add: read_varint_def read_def)

lemma read_varint_fe:
  "read_varint (0xfe # bs) = (Inr (little_endian_to_int (take 4 bs)), drop 4 bs)"
  by (simp add: read_varint_def read_def)

lemma read_varint_ff:
  "read_varint (0xff # bs) = (Inr (little_endian_to_int (take 8 bs)), drop 8 bs)"
  by (simp add: read_varint_def read_def)

lemma read_varint_small:
  "uint i < 0xfd \<Longrightarrow> read_varint (i # bs) = (Inr (uint i), bs)"
  by (auto simp: read_varint_def read_def)

lemma encode_varint_1: "0 \<le> v \<Longrightarrow> v < 0xfd \<Longrightarrow> encode_varint v = Inr [word_of_int v]"
  by (simp add: encode_varint_def bytes_of_int_def)

lemma encode_varint_3:
  "0xfd \<le> v \<Longrightarrow> v < 0x10000 \<Longrightarrow> encode_varint v = Inr (0xfd # le_digits 2 v)"
  by (simp add: encode_varint_def prepend_def int_to_little_endian_def to_bytes_little_def)

lemma encode_varint_5:
  "0x10000 \<le> v \<Longrightarrow> v < 0x100000000 \<Longrightarrow> encode_varint v = Inr (0xfe # le_digits 4 v)"
  by (simp add: encode_varint_def prepend_def int_to_little_endian_def to_bytes_little_def)

lemma encode_varint_9:
  "0x100000000 \<le> v \<Longrightarrow> v < 0x10000000000000000 \<Longrightarrow>
   encode_varint v = Inr (0xff # le_digits 8 v)"
  by (simp add: encode_varint_def prepend_def int_to_little_endian_def to_bytes_little_def)

lemma little_endian_le_digits:
  "0 \<le> v \<Longrightarrow> v < 256 ^ k \<Longrightarrow> little_endian_to_int (take k (le_digits k v)) = v"
  by (simp add: little_endian_to_int_def length_le_digits from_bytes_little_le_digits)

lemma drop_le_digits: "drop k (le_digits k v) = []"
  by (simp add: length_le_digits)

text \<open>
  Claim C3. For every integer \<open>v\<close> with \<open>0 \<le> v \<le> 2 ^ 64 - 1\<close>, \<open>encode_varint v\<close>
  succeeds, and \<open>read_varint\<close> on a stream holding exactly the encoded bytes returns \<open>v\<close>
  (and leaves the stream empty).
\<close>

theorem read_varint_encode_varint:
  assumes "0 \<le> v" and "v \<le> 2 ^ 64 - 1"
  shows "\<exists>bs. encode_varint v = Inr bs \<and> read_varint bs = (Inr v, [])"
proof -
  consider (a) "v < 0xfd" | (b) "0xfd \<le> v" "v < 0x10000"
    | (c) "0x10000 \<le> v" "v < 0x100000000"
    | (d) "0x100000000 \<le> v" "v < 0x10000000000000000"
    using assms(2) by fastforce
  then show ?thesis
  proof cases
    case a
    then have "uint (word_of_int v :: byte) = v"
      using assms(1) by (simp add: uint_byte_of_int)
    then have "read_varint [word_of_int v] = (Inr v, [])"
      using a read_varint_small [of "word_of_int v" "[]"] by simp
    then show ?thesis using a assms(1) by (simp add: encode_varint_1)
  next
    case b
    have "little_endian_to_int (take 2 (le_digits 2 v)) = v"
      using assms(1) b(2) by (intro little_endian_le_digits) simp_all
    then show ?thesis using b by (simp add: encode_varint_3 read_varint_fd drop_le_digits)
  next
    case c
    have "little_endian_to_int (take 4 (le_digits 4 v)) = v"
      using assms(1) c(2) by (intro little_endian_le_digits) simp_all
    then show ?thesis using c by (simp add: encode_varint_5 read_varint_fe drop_le_digits)
  next
    case d
    have "little_endian_to_int (take 8 (le_digits 8 v)) = v"
      using assms(1) d(2) by (intro little_endian_le_digits) simp_all
    then show ?thesis using d by (simp add: encode_varint_9 read_varint_ff drop_le_digits)
  qed
qed

theorem read_varint_encode_varint_witness:
  "(0::int) \<le> 70000 \<and> (70000::int) \<le> 2 ^ 64 - 1
   \<and> (\<exists>bs. encode_varint 70000 = Inr bs \<and> read_varint bs = (Inr 70000, []))"
  using read_varint_encode_varint [of 70000] by simp

text \<open>
  Claim C4, as stated: whenever the stream holds fewer bytes than the read requires (no
  prefix byte, or a prefix 0xFD, 0xFE, 0xFF followed by fewer than 2, 4, 8 bytes),
  \<open>read_varint\<close> fails. It does not: after the prefix 0xFD and a single byte, \<open>s.read(2)\<close>
  returns that one byte and its little-endian value is returned.
\<close>

theorem read_varint_short_counterexample:
  "length [0x01 :: byte] < 2 \<and> read_varint [0xfd, 0x01] = (Inr 1, [])"
  by (simp add: read_varint_def read_def little_endian_to_int_def)

text \<open>
  Claim C4, amended. \<open>read_varint\<close> raises \<open>IndexError\<close> on a stream with no prefix byte.
  After a prefix 0xFD, 0xFE or 0xFF followed by fewer than 2, 4 or 8 bytes it does not
  fail: it returns the little-endian value of the bytes that remain and leaves the
  stream empty.
\<close>

theorem read_varint_short:
  "read_varint [] = (Inl IndexError, [])
   \<and> (length bs < 2 \<longrightarrow> read_varint (0xfd # bs) = (Inr (little_endian_to_int bs), []))
   \<and> (length bs < 4 \<longrightarrow> read_varint (0xfe # bs) = (Inr (little_endian_to_int bs), []))
   \<and> (length bs < 8 \<longrightarrow> read_varint (0xff # bs) = (Inr (little_endian_to_int bs), []))"
  by (simp add: read_varint_Nil read_varint_fd read_varint_fe read_varint_ff)

theorem read_varint_short_witness:
  "length [0x07 :: byte] < 2 \<and> length [0x07 :: byte] < 4 \<and> length [0x07 :: byte] < 8
   \<and> read_varint [] = (Inl IndexError, [])
   \<and> read_varint [0xfd, 0x07] = (Inr 7, [])
   \<and> read_varint [0xfe, 0x07] = (Inr 7, [])
   \<and> read_varint [0xff, 0x07] = (Inr 7, [])"
  using read_varint_short [of "[0x07]"] by (simp add: little_endian_to_int_def)

text \<open>
  Claim C5. For every integer \<open>v\<close> with \<open>0 \<le> v \<le> 2 ^ 64 - 1\<close>, \<open>encode_varint\<close> returns
  the single byte \<open>v\<close> if \<open>v < 0xFD\<close>; 0xFD and the 2-byte little-endian encoding of \<open>v\<close>
  if \<open>0xFD \<le> v < 0x10000\<close>; 0xFE and the 4-byte encoding if
  \<open>0x10000 \<le> v < 0x100000000\<close>; 0xFF and the 8-byte encoding if
  \<open>0x100000000 \<le> v < 0x10000000000000000\<close>.
\<close>

theorem encode_varint_width:
  assumes "0 \<le> v" and "v \<le> 2 ^ 64 - 1"
  shows "(v < 0xfd \<longrightarrow>
           encode_varint v = Inr [word_of_int v] \<and> uint (word_of_int v :: byte) = v)
    \<and> (0xfd \<le> v \<and> v < 0x10000 \<longrightarrow>
         (\<exists>bs. encode_varint v = Inr (0xfd # bs) \<and> length bs = 2
            \<and> from_bytes_little bs = v))
    \<and> (0x10000 \<le> v \<and> v < 0x100000000 \<longrightarrow>
         (\<exists>bs. encode_varint v = Inr (0xfe # bs) \<and> length bs = 4
            \<and> from_bytes_little bs = v))
    \<and> (0x100000000 \<le> v \<and> v < 0x10000000000000000 \<longrightarrow>
         (\<exists>bs. encode_varint v = Inr (0xff # bs) \<and> length bs = 8
            \<and> from_bytes_little bs = v))"
proof (intro conjI impI)
  assume "v < 0xfd"
  then show "encode_varint v = Inr [word_of_int v]"
    using assms(1) by (simp add: encode_varint_1)
  show "uint (word_of_int v :: byte) = v"
    using \<open>v < 0xfd\<close> assms(1) by (simp add: uint_byte_of_int)
next
  assume h: "0xfd \<le> v \<and> v < 0x10000"
  then have "from_bytes_little (le_digits 2 v) = v"
    using assms(1) by (intro from_bytes_little_le_digits) simp_all
  then show "\<exists>bs. encode_varint v = Inr (0xfd # bs) \<and> length bs = 2
      \<and> from_bytes_little bs = v"
    using h by (simp add: encode_varint_3 length_le_digits)
next
  assume h: "0x10000 \<le> v \<and> v < 0x100000000"
  then have "from_bytes_little (le_digits 4 v) = v"
    using assms(1) by (intro from_bytes_little_le_digits) simp_all
  then show "\<exists>bs. encode_varint v = Inr (0xfe # bs) \<and> length bs = 4
      \<and> from_bytes_little bs = v"
    using h by (simp add: encode_varint_5 length_le_digits)
next
  assume h: "0x100000000 \<le> v \<and> v < 0x10000000000000000"
  then have "from_bytes_little (le_digits 8 v) = v"
    using assms(1) by (intro from_bytes_little_le_digits) simp_all
  then show "\<exists>bs. encode_varint v = Inr (0xff # bs) \<and> length bs = 8
      \<and> from_bytes_little bs = v"
    using h by (simp add: encode_varint_9 length_le_digits)
qed

theorem encode_varint_width_witness:
  "(encode_varint 252 = Inr [word_of_int 252] \<and> uint (word_of_int 252 :: byte) = 252)
   \<and> (\<exists>bs. encode_varint 253 = Inr (0xfd # bs) \<and> length bs = 2
         \<and> from_bytes_little bs = 253)
   \<and> (\<exists>bs. encode_varint 0x10000 = Inr (0xfe # bs) \<and> length bs = 4
         \<and> from_bytes_little bs = 0x10000)
   \<and> (\<exists>bs. encode_varint 0x100000000 = Inr (0xff # bs) \<and> length bs = 8
         \<and> from_bytes_little bs = 0x100000000)"
  using encode_varint_width [of 252] encode_varint_width [of 253]
    encode_varint_width [of "0x10000"] encode_varint_width [of "0x100000000"]
  by simp

text \<open>
  Claim C6. For every integer \<open>v \<ge> 2 ^ 64\<close>, \<open>encode_varint\<close> raises (\<open>RuntimeError\<close>,
  "integer too large") and returns no encoding; in particular at \<open>2 ^ 64\<close>.
\<close>

theorem encode_varint_too_large:
  "2 ^ 64 \<le> v \<Longrightarrow> encode_varint v = Inl RuntimeError"
  by (simp add: encode_varint_def)

theorem encode_varint_too_large_witness:
  "(2::int) ^ 64 \<le> 2 ^ 64 \<and> encode_varint (2 ^ 64) = Inl RuntimeError"
  using encode_varint_too_large [of "2 ^ 64"] by simp

section \<open>Properties of the byte and integer conversions\<close>

lemma from_bytes_little_bounds:
  "0 \<le> from_bytes_little bs \<and> from_bytes_little bs < 256 ^ length bs"
proof (induction bs)
  case Nil
  then show ?case by simp
next
  case (Cons b bs)
  have "uint b < 256" using uint_lt2p [of b] by simp
  moreover have "0 \<le> uint b" by simp
  moreover have "from_bytes_little bs + 1 \<le> 256 ^ length bs" using Cons by simp
  then have "256 * (from_bytes_little bs + 1) \<le> 256 * 256 ^ length bs"
    by (rule mult_left_mono) simp
  ultimately show ?case using Cons by (simp add: algebra_simps)
qed

lemma le_digits_zero: "le_digits k 0 = replicate k 0"
  by (induction k) simp_all

lemma le_digits_from_bytes_little:
  "length bs \<le> k \<Longrightarrow> le_digits k (from_bytes_little bs) = bs @ replicate (k - length bs) 0"
proof (induction bs arbitrary: k)
  case Nil
  then show ?case by (simp add: le_digits_zero)
next
  case (Cons b bs)
  then obtain k' where k: "k = Suc k'" by (cases k) auto
  have lt: "uint b < 256" using uint_lt2p [of b] by simp
  have m: "(uint b + 256 * from_bytes_little bs) mod 256 = uint b"
    using lt by simp
  have d: "(uint b + 256 * from_bytes_little bs) div 256 = from_bytes_little bs"
    using lt by simp
  have w: "(word_of_int (uint b) :: byte) = b" by simp
  have "le_digits k (uint b + 256 * from_bytes_little bs)
      = word_of_int (uint b) # le_digits k' (from_bytes_little bs)"
    unfolding k le_digits.simps m d ..
  then show ?case using Cons k by (simp add: w)
qed

lemma from_bytes_little_append:
  "from_bytes_little (xs @ ys) = from_bytes_little xs + 256 ^ length xs * from_bytes_little ys"
  by (induction xs) (simp_all add: algebra_simps)

lemma to_bytes_big_from_bytes_big:
  assumes "length s \<le> k"
  shows "to_bytes_big (from_bytes_big s) (int k) = Inr (replicate (k - length s) 0 @ s)"
proof -
  let ?n = "from_bytes_little (rev s)"
  have b: "0 \<le> ?n" "?n < 256 ^ length s"
    using from_bytes_little_bounds [of "rev s"] by simp_all
  have "(256::int) ^ length s \<le> 256 ^ k" using assms by (simp add: power_increasing)
  with b(2) have "?n < 256 ^ k" by linarith
  then have "to_bytes_little ?n (int k) = Inr (le_digits k ?n)"
    using b(1) by (simp add: to_bytes_little_def)
  moreover have "le_digits k ?n = rev s @ replicate (k - length s) 0"
    using assms le_digits_from_bytes_little [of "rev s" k] by simp
  ultimately show ?thesis by (simp add: to_bytes_big_def from_bytes_big_def)
qed

lemma to_bytes_big_length:
  "to_bytes_big n len = Inr buf \<Longrightarrow> length buf = nat len \<and> 0 \<le> n \<and> n < 256 ^ nat len"
  by (auto simp: to_bytes_big_def to_bytes_little_def length_le_digits split: if_splits)

lemma to_bytes_big_overflow:
  "0 \<le> len \<Longrightarrow> 256 ^ nat len \<le> n \<Longrightarrow> to_bytes_big n len = Inl OverflowError"
proof -
  assume a: "0 \<le> len" "256 ^ nat len \<le> n"
  have "0 < (256::int) ^ nat len" by simp
  then have "\<not> n < 0" using a(2) by linarith
  then show ?thesis using a by (simp add: to_bytes_big_def to_bytes_little_def)
qed

section \<open>Properties of the Base58 alphabet and of the loops\<close>

lemma hex_digit_value_hex_char:
  assumes "d < 16"
  shows "hex_digit_value (hex_char d) = Some (int d)"
proof -
  have "list_all (\<lambda>d. hex_digit_value (hex_char d) = Some (int d)) [0..<16]"
    by (simp add: hex_char_def ascii_bytes_def upt_conv_Cons hex_digit_value_def)
  then show ?thesis using assms by (simp add: list_all_iff)
qed

lemma distinct_alphabet: "distinct BASE58_ALPHABET"
  by (simp add: BASE58_ALPHABET_def ascii_bytes_def)

lemma length_alphabet: "length BASE58_ALPHABET = 58"
  by (simp add: BASE58_ALPHABET_def ascii_bytes_def)

lemma alphabet_ascii: "list_all (\<lambda>x. x < 128) BASE58_ALPHABET"
  by (simp add: BASE58_ALPHABET_def ascii_bytes_def)

lemma bytes_index_nth:
  "distinct xs \<Longrightarrow> i < length xs \<Longrightarrow> bytes_index xs (xs ! i) = Some i"
proof (induction xs arbitrary: i)
  case Nil
  then show ?case by simp
next
  case (Cons x xs)
  then show ?case by (cases i) auto
qed

lemma alphabet_index:
  "d < 58 \<Longrightarrow> bytes_index BASE58_ALPHABET (BASE58_ALPHABET ! d) = Some d"
  by (simp add: bytes_index_nth distinct_alphabet length_alphabet)

lemma unat_byte_less: "unat (b :: byte) < 256"
  using unsigned_less [of b, where ?'a = nat] by simp

lemma hexlify_Cons:
  "hexlify (b # s) = hex_char (unat b div 16) # hex_char (unat b mod 16) # hexlify s"
  by (simp add: hexlify_def)

lemma hex_split: "16 * int (unat b div 16) + int (unat b mod 16) = uint (b :: byte)"
proof -
  have "16 * (unat b div 16) + unat b mod 16 = unat b" by simp
  then have "int (16 * (unat b div 16) + unat b mod 16) = int (unat b)" by (rule arg_cong)
  then show ?thesis unfolding uint_nat by (simp only: of_nat_add of_nat_mult of_nat_numeral)
qed

lemma int16_digits_hexlify_step:
  "int16_digits (hexlify (b # s)) acc = int16_digits (hexlify s) (256 * acc + uint b)"
proof -
  have "unat b div 16 < 16"
    using unat_byte_less [of b] by (intro less_mult_imp_div_less) simp
  then have hi: "hex_digit_value (hex_char (unat b div 16)) = Some (int (unat b div 16))"
    by (rule hex_digit_value_hex_char)
  have "unat b mod 16 < 16" by simp
  then have lo: "hex_digit_value (hex_char (unat b mod 16)) = Some (int (unat b mod 16))"
    by (rule hex_digit_value_hex_char)
  have "\<And>h l u. 16 * h + l = u \<Longrightarrow> 16 * (16 * acc + h) + l = 256 * acc + (u::int)"
    by simp
  then have "16 * (16 * acc + int (unat b div 16)) + int (unat b mod 16) = 256 * acc + uint b"
    using hex_split [of b] by blast
  then show ?thesis
    by (simp only: hexlify_Cons int16_digits.simps hi lo option.case)
qed

lemma int16_digits_hexlify:
  "int16_digits (hexlify s) acc = Inr (acc * 256 ^ length s + from_bytes_big s)"
proof (induction s arbitrary: acc)
  case Nil
  then show ?case by (simp add: hexlify_def from_bytes_big_def)
next
  case (Cons b s)
  have "from_bytes_big (b # s) = from_bytes_big s + 256 ^ length s * uint b"
    by (simp add: from_bytes_big_def from_bytes_little_append)
  then show ?case
    by (simp only: int16_digits_hexlify_step Cons.IH) (simp add: algebra_simps)
qed

lemma alphabet_index_one: "bytes_index BASE58_ALPHABET 0x31 = Some 0"
  by (simp add: BASE58_ALPHABET_def ascii_bytes_def)

lemma hexlify_Nil_iff: "hexlify s = [] \<longleftrightarrow> s = []"
  by (cases s) (simp_all add: hexlify_def)

lemma int16_hexlify: "s \<noteq> [] \<Longrightarrow> int16 (hexlify s) = Inr (from_bytes_big s)"
  by (simp add: int16_def hexlify_Nil_iff int16_digits_hexlify)

lemma int16_hexlify_Nil: "int16 (hexlify []) = Inl ValueError"
  by (simp add: int16_def hexlify_def)

lemma decode_digits_base58_digits:
  "0 \<le> num \<Longrightarrow> decode_digits (base58_digits num result) 0 = decode_digits result num"
proof (induction num result rule: base58_digits.induct)
  case (1 num result)
  show ?case
  proof (cases "num > 0")
    case True
    have "nat (num mod 58) < 58" by (simp add: nat_less_iff)
    then have idx: "bytes_index BASE58_ALPHABET (BASE58_ALPHABET ! nat (num mod 58))
        = Some (nat (num mod 58))"
      by (rule alphabet_index)
    have "decode_digits (base58_digits num result) 0
        = decode_digits (base58_digits (num div 58)
            (BASE58_ALPHABET ! nat (num mod 58) # result)) 0"
      using True by (subst base58_digits.simps) simp
    also have "\<dots> = decode_digits (BASE58_ALPHABET ! nat (num mod 58) # result) (num div 58)"
      using True "1.prems" by (intro "1.IH") simp_all
    also have "\<dots> = decode_digits result (num div 58 * 58 + num mod 58)"
      by (simp add: idx)
    finally show ?thesis by simp
  next
    case False
    then have "num = 0" using "1.prems" by simp
    then show ?thesis by (subst base58_digits.simps) simp
  qed
qed

lemma decode_digits_ones:
  "decode_digits (replicate k (of_char CHR ''1'') @ cs) 0 = decode_digits cs 0"
  by (induction k) (simp_all add: alphabet_index_one)

lemma base58_digits_ascii:
  "list_all (\<lambda>x. x < 128) result \<Longrightarrow> list_all (\<lambda>x. x < 128) (base58_digits num result)"
proof (induction num result rule: base58_digits.induct)
  case (1 num result)
  show ?case
  proof (cases "num > 0")
    case True
    have "nat (num mod 58) < length BASE58_ALPHABET"
      by (simp add: nat_less_iff length_alphabet)
    then have "BASE58_ALPHABET ! nat (num mod 58) \<in> set BASE58_ALPHABET" by (rule nth_mem)
    then have "BASE58_ALPHABET ! nat (num mod 58) < 128"
      using alphabet_ascii by (simp add: list_all_iff)
    then have "list_all (\<lambda>x. x < 128) (base58_digits (num div 58)
        (BASE58_ALPHABET ! nat (num mod 58) # result))"
      using True "1.prems" by (intro "1.IH") simp_all
    then show ?thesis using True by (subst base58_digits.simps) simp
  next
    case False
    then show ?thesis using "1.prems" by (subst base58_digits.simps) simp
  qed
qed

lemma of_char_char_of_unat: "(of_char (char_of (unat (x :: byte))) :: nat) = unat x"
  using unat_byte_less [of x] by (simp only: of_char_of) simp

lemma of_char_char_of_byte: "(of_char (char_of (unat x)) :: byte) = x"
proof -
  have "(of_char (char_of (unat x)) :: byte) = of_nat (of_char (char_of (unat x)))"
    by (simp only: of_nat_of_char)
  also have "\<dots> = of_nat (unat x)" by (simp only: of_char_char_of_unat)
  also have "\<dots> = x" by simp
  finally show ?thesis .
qed

lemma of_char_char_of_nat: "x < 128 \<Longrightarrow> (of_char (char_of (unat (x :: byte))) :: nat) < 128"
  by (simp only: of_char_char_of_unat) (simp add: word_less_nat_alt)

lemma ascii_chars:
  "list_all (\<lambda>x. x < 128) (b :: bytes) \<Longrightarrow>
   list_all (\<lambda>c. (of_char c :: nat) < 128) (map (\<lambda>x. char_of (unat x)) b)"
proof (induction b)
  case Nil
  show ?case by simp
next
  case (Cons a b)
  from Cons.prems have a: "a < 128" and b: "list_all (\<lambda>x. x < 128) b"
    by simp_all
  have "(of_char (char_of (unat a)) :: nat) < 128" using a by (rule of_char_char_of_nat)
  moreover have "list_all (\<lambda>c. (of_char c :: nat) < 128) (map (\<lambda>x. char_of (unat x)) b)"
    using b by (rule Cons.IH)
  ultimately show ?case by (simp only: list.map list.pred_inject)
qed

lemma ascii_bytes_back: "map of_char (map (\<lambda>x. char_of (unat x)) b) = (b :: bytes)"
  by (induction b) (simp_all only: list.map of_char_char_of_byte)

section \<open>Encoding followed by decoding\<close>

lemma from_bytes_big_nonneg: "0 \<le> from_bytes_big s"
  using from_bytes_little_bounds [of "rev s"] by (simp add: from_bytes_big_def)

lemma encode_base58_nonempty:
  "s \<noteq> [] \<Longrightarrow>
   encode_base58 s = Inr (replicate (count_zeros s) 0x31 @ base58_digits (from_bytes_big s) [])"
  by (simp add: encode_base58_def int16_hexlify py_bind_def)

lemma encode_base58_Nil: "encode_base58 [] = Inl ValueError"
  by (simp add: encode_base58_def int16_hexlify_Nil py_bind_def)

lemma decode_ascii_encode_ascii:
  assumes "list_all (\<lambda>x. x < 128) (b :: bytes)"
  shows "\<exists>str. decode_ascii b = Inr str \<and> encode_ascii str = Inr b"
proof -
  have "decode_ascii b = Inr (map (\<lambda>x. char_of (unat x)) b)"
    using assms by (simp only: decode_ascii_def if_True)
  moreover have "encode_ascii (map (\<lambda>x. char_of (unat x)) b) = Inr b"
    using ascii_chars [OF assms] by (simp only: encode_ascii_def if_True ascii_bytes_back)
  ultimately show ?thesis by blast
qed

lemma encoding_ascii:
  "list_all (\<lambda>x. x < 128) (replicate k 0x31 @ base58_digits n [] :: bytes)"
proof -
  have "list_all (\<lambda>x. x < 128) (base58_digits n [])"
    by (rule base58_digits_ascii) simp
  moreover have "list_all (\<lambda>x. x < 128) (replicate k 0x31 :: bytes)"
    by (induction k) simp_all
  ultimately show ?thesis by simp
qed

lemma base58_buffer_encode_text:
  assumes "s \<noteq> []"
  shows "py_bind (encode_base58_text s) base58_buffer = to_bytes_big (from_bytes_big s) 25"
proof -
  let ?t = "replicate (count_zeros s) 0x31 @ base58_digits (from_bytes_big s) []"
  have enc: "encode_base58 s = Inr ?t" using assms by (rule encode_base58_nonempty)
  obtain str where str: "decode_ascii ?t = Inr str" "encode_ascii str = Inr ?t"
    using decode_ascii_encode_ascii [OF encoding_ascii] by blast
  have "decode_digits ?t 0 = decode_digits (base58_digits (from_bytes_big s) []) 0"
    using decode_digits_ones [of "count_zeros s"] by simp
  also have "\<dots> = decode_digits [] (from_bytes_big s)"
    using from_bytes_big_nonneg by (rule decode_digits_base58_digits)
  finally have num: "decode_digits ?t 0 = Inr (from_bytes_big s)" by simp
  have "encode_base58_text s = Inr str"
    by (simp only: encode_base58_text_def enc py_bind_def sum.case str)
  moreover have "base58_buffer str = to_bytes_big (from_bytes_big s) 25"
    by (simp only: base58_buffer_def str py_bind_def sum.case num)
  ultimately show ?thesis by (simp only: py_bind_def sum.case)
qed

lemma decode_base58_buffer:
  "py_bind r decode_base58
     = py_bind (py_bind r base58_buffer) (\<lambda>buf. Inr (strip_prefix_checksum buf))"
  by (cases r) (simp_all add: py_bind_def decode_base58_def)

lemma decode_encode_text:
  assumes "s \<noteq> []" and "length s \<le> 25"
  shows "py_bind (encode_base58_text s) decode_base58
           = Inr (strip_prefix_checksum (replicate (25 - length s) 0 @ s))"
proof -
  have "to_bytes_big (from_bytes_big s) (int 25) = Inr (replicate (25 - length s) 0 @ s)"
    using assms(2) by (rule to_bytes_big_from_bytes_big)
  then have tb: "to_bytes_big (from_bytes_big s) 25 = Inr (replicate (25 - length s) 0 @ s)"
    by simp
  have "py_bind (encode_base58_text s) decode_base58
      = py_bind (py_bind (encode_base58_text s) base58_buffer)
          (\<lambda>buf. Inr (strip_prefix_checksum buf))"
    by (rule decode_base58_buffer)
  also have "\<dots> = py_bind (to_bytes_big (from_bytes_big s) 25)
          (\<lambda>buf. Inr (strip_prefix_checksum buf))"
    by (simp only: base58_buffer_encode_text [OF assms(1)])
  also have "\<dots> = Inr (strip_prefix_checksum (replicate (25 - length s) 0 @ s))"
    by (simp only: tb py_bind_def sum.case)
  finally show ?thesis .
qed

lemma from_bytes_big_Nil: "from_bytes_big [] = 0"
  by (simp add: from_bytes_big_def)

lemma decode_encode_text_overflow:
  assumes "256 ^ 25 \<le> from_bytes_big s"
  shows "py_bind (encode_base58_text s) decode_base58 = Inl OverflowError"
proof -
  have "(0::int) < 256 ^ 25" by simp
  then have "from_bytes_big s \<noteq> 0" using assms by linarith
  then have ne: "s \<noteq> []" using from_bytes_big_Nil by blast
  have "(256::int) ^ nat 25 \<le> from_bytes_big s" using assms by simp
  then have tb: "to_bytes_big (from_bytes_big s) 25 = Inl OverflowError"
    by (intro to_bytes_big_overflow) simp
  have "py_bind (encode_base58_text s) decode_base58
      = py_bind (py_bind (encode_base58_text s) base58_buffer)
          (\<lambda>buf. Inr (strip_prefix_checksum buf))"
    by (rule decode_base58_buffer)
  also have "\<dots> = py_bind (to_bytes_big (from_bytes_big s) 25)
          (\<lambda>buf. Inr (strip_prefix_checksum buf))"
    by (simp only: base58_buffer_encode_text [OF ne])
  also have "\<dots> = Inl OverflowError"
    by (simp only: tb py_bind_def sum.case)
  finally show ?thesis .
qed

lemma length_digest_bytes: "length (digest_bytes H) = 32"
  by (cases H rule: digest_bytes.cases) (simp add: bytes_of_word_def)

lemma length_double_sha256: "length (double_sha256 s) = 32"
  by (simp add: double_sha256_def sha256_def Let_def length_digest_bytes)

lemma decode_base58_Inr:
  assumes "decode_base58 s = Inr bs"
  shows "\<exists>cs num buf. encode_ascii s = Inr cs \<and> decode_digits cs 0 = Inr num
           \<and> to_bytes_big num 25 = Inr buf \<and> bs = strip_prefix_checksum buf"
  using assms
  by (auto simp: decode_base58_def base58_buffer_def py_bind_def split: sum.splits)

lemma strip_prefix_checksum_25:
  "length buf = 25 \<Longrightarrow> strip_prefix_checksum buf = take 20 (drop 1 buf)"
  by (simp add: strip_prefix_checksum_def drop_take)

lemma length_strip_prefix_checksum_25:
  "length buf = 25 \<Longrightarrow> length (strip_prefix_checksum buf) = 20"
  by (simp add: strip_prefix_checksum_def)

lemma decode_base58_length_20: "decode_base58 s = Inr bs \<Longrightarrow> length bs = 20"
proof -
  assume "decode_base58 s = Inr bs"
  then obtain num buf where h: "to_bytes_big num 25 = Inr buf" "bs = strip_prefix_checksum buf"
    using decode_base58_Inr by blast
  have "length buf = 25" using to_bytes_big_length [OF h(1)] by simp
  then show ?thesis using h(2) by (simp add: length_strip_prefix_checksum_25)
qed

lemma py_bind_Inr: "py_bind r f = Inr y \<Longrightarrow> \<exists>x. r = Inr x \<and> f x = Inr y"
  by (cases r) (simp_all add: py_bind_def)

lemma encode_base58_checksum_text:
  "encode_base58_checksum b = encode_base58_text (b @ take 4 (double_sha256 b))"
  by (simp add: encode_base58_checksum_def encode_base58_text_def)

lemma length_checksum: "length (take 4 (double_sha256 b)) = 4"
  by (simp add: length_double_sha256)

lemma base58_buffer_encode_checksum:
  assumes "length b \<le> 21"
  shows "py_bind (encode_base58_checksum b) base58_buffer
           = Inr (replicate (21 - length b) 0 @ b @ take 4 (double_sha256 b))"
proof -
  let ?s = "b @ take 4 (double_sha256 b)"
  have ne: "?s \<noteq> []" using length_checksum [of b] by auto
  have len: "length ?s = length b + 4" using length_checksum [of b] by simp
  then have "length ?s \<le> 25" using assms by simp
  then have "to_bytes_big (from_bytes_big ?s) (int 25) = Inr (replicate (25 - length ?s) 0 @ ?s)"
    by (rule to_bytes_big_from_bytes_big)
  then have "to_bytes_big (from_bytes_big ?s) 25 = Inr (replicate (21 - length b) 0 @ ?s)"
    using len by simp
  then show ?thesis
    by (simp only: encode_base58_checksum_text base58_buffer_encode_text [OF ne])
qed

lemma decode_encode_checksum:
  assumes "length b \<le> 21"
  shows "py_bind (encode_base58_checksum b) decode_base58
           = Inr (drop 1 (replicate (21 - length b) 0 @ b))"
proof -
  let ?c = "take 4 (double_sha256 b)"
  have "py_bind (encode_base58_checksum b) decode_base58
      = py_bind (py_bind (encode_base58_checksum b) base58_buffer)
          (\<lambda>buf. Inr (strip_prefix_checksum buf))"
    by (rule decode_base58_buffer)
  also have "\<dots> = py_bind (Inr (replicate (21 - length b) 0 @ b @ ?c))
          (\<lambda>buf. Inr (strip_prefix_checksum buf))"
    by (simp only: base58_buffer_encode_checksum [OF assms])
  also have "\<dots> = Inr (strip_prefix_checksum (replicate (21 - length b) 0 @ b @ ?c))"
    by (simp only: py_bind_def sum.case)
  also have "strip_prefix_checksum (replicate (21 - length b) 0 @ b @ ?c)
      = drop 1 (replicate (21 - length b) 0 @ b)"
    using assms length_checksum [of b] by (simp add: strip_prefix_checksum_def)
  finally show ?thesis .
qed

lemma decode_digits_replicate_one:
  "decode_digits (replicate k 0x31) n = Inr (n * 58 ^ k)"
  by (induction k arbitrary: n) (simp_all add: alphabet_index_one)

lemma alphabet_index_three: "bytes_index BASE58_ALPHABET 0x33 = Some 2"
  by (simp add: BASE58_ALPHABET_def ascii_bytes_def)

section \<open>Properties of the Base58Check codec\<close>

text \<open>
  Claim C10. Whenever \<open>decode_base58\<close> succeeds, it returns exactly 20 bytes: the
  accumulated integer fits in 25 bytes, and the result is bytes 1 to 20 of the 25-byte
  big-endian buffer that holds it. When the accumulated integer does not fit in 25
  bytes, \<open>decode_base58\<close> raises (\<open>OverflowError\<close>).
\<close>

theorem decode_base58_length:
  "(decode_base58 s = Inr bs \<longrightarrow>
      length bs = 20
      \<and> (\<exists>cs num buf. encode_ascii s = Inr cs \<and> decode_digits cs 0 = Inr num
            \<and> num < 256 ^ 25 \<and> to_bytes_big num 25 = Inr buf \<and> length buf = 25
            \<and> bs = take 20 (drop 1 buf)))
   \<and> (encode_ascii s = Inr cs' \<and> decode_digits cs' 0 = Inr num' \<and> 256 ^ 25 \<le> num' \<longrightarrow>
        decode_base58 s = Inl OverflowError)"
proof (intro conjI impI)
  assume "decode_base58 s = Inr bs"
  then obtain cs num buf where h: "encode_ascii s = Inr cs" "decode_digits cs 0 = Inr num"
      "to_bytes_big num 25 = Inr buf" "bs = strip_prefix_checksum buf"
    using decode_base58_Inr by blast
  have l: "length buf = 25" "num < 256 ^ 25"
    using to_bytes_big_length [OF h(3)] by simp_all
  show "length bs = 20" using h(4) length_strip_prefix_checksum_25 [OF l(1)] by simp
  show "\<exists>cs num buf. encode_ascii s = Inr cs \<and> decode_digits cs 0 = Inr num
            \<and> num < 256 ^ 25 \<and> to_bytes_big num 25 = Inr buf \<and> length buf = 25
            \<and> bs = take 20 (drop 1 buf)"
    using h l strip_prefix_checksum_25 [OF l(1)] by auto
next
  assume a: "encode_ascii s = Inr cs' \<and> decode_digits cs' 0 = Inr num' \<and> 256 ^ 25 \<le> num'"
  then have "(256::int) ^ nat 25 \<le> num'" by simp
  then have "to_bytes_big num' 25 = Inl OverflowError"
    by (intro to_bytes_big_overflow) simp
  then show "decode_base58 s = Inl OverflowError"
    using a by (simp add: decode_base58_def base58_buffer_def py_bind_def)
qed

theorem decode_base58_length_witness:
  "decode_base58 ''11'' = Inr (replicate 20 0)
   \<and> length (replicate 20 (0 :: byte)) = 20
   \<and> encode_ascii ''31111111111111111111111111111111111''
       = Inr (0x33 # replicate 34 0x31)
   \<and> decode_digits (0x33 # replicate 34 0x31) 0 = Inr (2 * 58 ^ 34)
   \<and> (256 :: int) ^ 25 \<le> 2 * 58 ^ 34
   \<and> decode_base58 ''31111111111111111111111111111111111'' = Inl OverflowError"
proof -
  have a: "decode_base58 ''11'' = Inr (replicate 20 0)" by code_simp
  have b: "encode_ascii ''31111111111111111111111111111111111''
       = Inr (0x33 # replicate 34 0x31)" by code_simp
  have c: "decode_digits (0x33 # replicate 34 0x31) 0 = Inr (2 * 58 ^ 34)"
    by (simp only: decode_digits.simps alphabet_index_three option.case
        decode_digits_replicate_one) simp
  have d: "(256 :: int) ^ 25 \<le> 2 * 58 ^ 34" by simp
  from decode_base58_length [of "''31111111111111111111111111111111111''" "[]"
      "0x33 # replicate 34 0x31" "2 * 58 ^ 34"] b c d
  have f: "decode_base58 ''31111111111111111111111111111111111'' = Inl OverflowError"
    by blast
  from decode_base58_length [of "''11''" "replicate 20 0" "[]" 0] a
  have "length (replicate 20 (0 :: byte)) = 20" by blast
  with a b c d f show ?thesis by blast
qed

lemma length_test_h160: "length test_h160 = 20"
  by (simp add: test_h160_def)

text \<open>
  Claim C1, as stated: for every byte string \<open>b\<close>,
  \<open>decode_base58(encode_base58_checksum(b)) == b\<close>, the trailing four bytes of the decoded
  buffer being the checksum of the rest. It fails on the 21 bytes of the test of the
  source, 0x6f followed by the hash: the 25-byte buffer is \<open>b\<close> followed by its checksum,
  so the checksum matches, and the result is the hash without the byte 0x6f.
\<close>

theorem decode_base58_encode_base58_checksum_counterexample:
  "py_bind (encode_base58_checksum (0x6f # test_h160)) base58_buffer
     = Inr ((0x6f # test_h160) @ take 4 (double_sha256 (0x6f # test_h160)))
   \<and> py_bind (encode_base58_checksum (0x6f # test_h160)) decode_base58 = Inr test_h160
   \<and> test_h160 \<noteq> 0x6f # test_h160"
proof (intro conjI)
  have l: "length (0x6f # test_h160) \<le> 21" by (simp add: length_test_h160)
  have z: "21 - length (0x6f # test_h160) = 0" by (simp add: length_test_h160)
  show "py_bind (encode_base58_checksum (0x6f # test_h160)) base58_buffer
     = Inr ((0x6f # test_h160) @ take 4 (double_sha256 (0x6f # test_h160)))"
    using base58_buffer_encode_checksum [OF l] by (simp only: z replicate_0 append_Nil)
  show "py_bind (encode_base58_checksum (0x6f # test_h160)) decode_base58 = Inr test_h160"
    using decode_encode_checksum [OF l]
    by (simp only: z replicate_0 append_Nil drop_Suc_Cons drop_0 One_nat_def)
  show "test_h160 \<noteq> 0x6f # test_h160" by simp
qed

text \<open>
  Claim C1, amended. For every byte string \<open>b\<close> of at most 21 bytes,
  \<open>decode_base58(encode_base58_checksum(b))\<close> returns \<open>b\<close> padded on the left with zero
  bytes to 21 bytes, without the first of these 21 bytes (for a \<open>b\<close> of 21 bytes: \<open>b\<close>
  without its prefix byte). The result is \<open>b\<close> itself exactly when \<open>b\<close> has 20 bytes.
\<close>

theorem decode_base58_encode_base58_checksum:
  "(length b \<le> 21 \<longrightarrow>
      py_bind (encode_base58_checksum b) decode_base58
        = Inr (drop 1 (replicate (21 - length b) 0 @ b)))
   \<and> (py_bind (encode_base58_checksum b) decode_base58 = Inr b \<longleftrightarrow> length b = 20)"
proof (intro conjI impI iffI)
  assume "length b \<le> 21"
  then show "py_bind (encode_base58_checksum b) decode_base58
        = Inr (drop 1 (replicate (21 - length b) 0 @ b))"
    by (rule decode_encode_checksum)
next
  assume "py_bind (encode_base58_checksum b) decode_base58 = Inr b"
  then have "\<exists>t. encode_base58_checksum b = Inr t \<and> decode_base58 t = Inr b"
    by (rule py_bind_Inr)
  then obtain t where "decode_base58 t = Inr b" by (elim exE conjE)
  then show "length b = 20" by (rule decode_base58_length_20)
next
  assume l: "length b = 20"
  then have "length b \<le> 21" by simp
  then have "py_bind (encode_base58_checksum b) decode_base58
        = Inr (drop 1 (replicate (21 - length b) 0 @ b))"
    by (rule decode_encode_checksum)
  moreover have "drop 1 (replicate (21 - length b) 0 @ b) = b"
    by (simp only: l) simp
  ultimately show "py_bind (encode_base58_checksum b) decode_base58 = Inr b"
    by (simp only:)
qed

theorem decode_base58_encode_base58_checksum_witness:
  "length (0x6f # test_h160) \<le> 21
   \<and> py_bind (encode_base58_checksum (0x6f # test_h160)) decode_base58 = Inr test_h160
   \<and> length test_h160 = 20
   \<and> py_bind (encode_base58_checksum test_h160) decode_base58 = Inr test_h160"
proof -
  have l: "length (0x6f # test_h160) \<le> 21" by (simp add: length_test_h160)
  have z: "21 - length (0x6f # test_h160) = 0" by (simp add: length_test_h160)
  have "py_bind (encode_base58_checksum (0x6f # test_h160)) decode_base58
      = Inr (drop 1 (replicate (21 - length (0x6f # test_h160)) 0 @ 0x6f # test_h160))"
    using decode_base58_encode_base58_checksum [of "0x6f # test_h160"] l by blast
  then have a: "py_bind (encode_base58_checksum (0x6f # test_h160)) decode_base58
      = Inr test_h160"
    by (simp only: z replicate_0 append_Nil drop_Suc_Cons drop_0 One_nat_def)
  have b: "py_bind (encode_base58_checksum test_h160) decode_base58 = Inr test_h160"
    using decode_base58_encode_base58_checksum [of test_h160] length_test_h160 by blast
  show ?thesis using l a b length_test_h160 by blast
qed

lemma count_zeros_replicate: "count_zeros (replicate n 0) = n"
  by (induction n) simp_all

lemma from_bytes_little_zeros: "from_bytes_little (replicate n 0) = 0"
  by (induction n) simp_all

lemma from_bytes_big_zeros: "from_bytes_big (replicate n 0) = 0"
  by (simp add: from_bytes_big_def from_bytes_little_zeros)

lemma base58_digits_zero: "base58_digits 0 result = result"
  by (subst base58_digits.simps) simp

lemma encode_base58_zeros:
  "0 < n \<Longrightarrow> encode_base58 (replicate n 0) = Inr (replicate n 0x31)"
proof -
  assume "0 < n"
  then have "replicate n (0 :: byte) \<noteq> []" by simp
  then have "encode_base58 (replicate n 0)
      = Inr (replicate (count_zeros (replicate n 0)) 0x31
          @ base58_digits (from_bytes_big (replicate n 0)) [])"
    by (rule encode_base58_nonempty)
  then show ?thesis
    by (simp only: count_zeros_replicate from_bytes_big_zeros base58_digits_zero append_Nil2)
qed

text \<open>
  Claim C9: for every natural number \<open>n\<close>, \<open>encode_base58\<close> of \<open>n\<close> zero bytes is \<open>n\<close>
  characters \<open>1\<close>. For \<open>n > 0\<close> this is lemma \<open>encode_base58_zeros\<close>. At \<open>n = 0\<close> the
  input is \<open>b''\<close>, \<open>hexlify\<close> returns \<open>b''\<close> and \<open>int(b'', 16)\<close> raises \<open>ValueError\<close>: the
  code returns no text where the claim asks for the empty one.
\<close>

theorem encode_base58_no_bytes:
  "encode_base58 (replicate 0 0) = Inl ValueError
   \<and> encode_base58 (replicate 0 0) \<noteq> Inr (replicate 0 0x31)"
  by (simp add: encode_base58_Nil)

lemma decode_encode_two_zeros:
  assumes "length payload \<le> 23"
  shows "py_bind (encode_base58_text ([0, 0] @ payload)) decode_base58
     = Inr (take 20 (drop 1 (replicate (23 - length payload) 0 @ [0, 0] @ payload)))"
proof -
  let ?s = "[0, 0] @ payload"
  have ne: "?s \<noteq> []" by simp
  have len: "length ?s \<le> 25" using assms by simp
  have buf: "length (replicate (25 - length ?s) 0 @ ?s) = 25" using assms by simp
  have "py_bind (encode_base58_text ?s) decode_base58
      = Inr (strip_prefix_checksum (replicate (25 - length ?s) 0 @ ?s))"
    using ne len by (rule decode_encode_text)
  also have "strip_prefix_checksum (replicate (25 - length ?s) 0 @ ?s)
      = take 20 (drop 1 (replicate (25 - length ?s) 0 @ ?s))"
    using buf by (rule strip_prefix_checksum_25)
  also have "25 - length ?s = 23 - length payload" by simp
  finally show ?thesis .
qed

text \<open>
  Claim C2, as stated: for every payload, decoding the text of
  \<open>encode_base58(b'\\x00\\x00' + payload)\<close> gives bytes that start with exactly two zero
  bytes. With a payload of 23 bytes 0x01 the input has 25 bytes, the buffer of
  \<open>decode_base58\<close> is the input itself, and the slice \<open>[1:-4]\<close> starts with one zero byte.
\<close>

theorem decode_base58_encode_base58_two_zeros_counterexample:
  "py_bind (encode_base58_text ([0, 0] @ replicate 23 1)) decode_base58
     = Inr (0 # replicate 19 1)
   \<and> count_zeros (0 # replicate 19 1) = 1"
proof
  have "length (replicate 23 (1 :: byte)) \<le> 23" by simp
  then have "py_bind (encode_base58_text ([0, 0] @ replicate 23 1)) decode_base58
     = Inr (take 20 (drop 1 (replicate (23 - length (replicate 23 (1 :: byte))) 0
          @ [0, 0] @ replicate 23 1)))"
    by (rule decode_encode_two_zeros)
  moreover have "take 20 (drop 1 (replicate (23 - length (replicate 23 (1 :: byte))) 0
          @ [0, 0] @ replicate 23 1)) = 0 # replicate 19 (1 :: byte)"
    by code_simp
  ultimately show "py_bind (encode_base58_text ([0, 0] @ replicate 23 1)) decode_base58
     = Inr (0 # replicate 19 1)"
    by (simp only:)
  show "count_zeros (0 # replicate 19 1) = 1" by code_simp
qed

text \<open>
  Claim C2, amended. For every payload of at most 23 bytes, decoding the text of
  \<open>encode_base58(b'\\x00\\x00' + payload)\<close> returns bytes 1 to 20 of the 25-byte buffer
  that holds \<open>b'\\x00\\x00' + payload\<close> right-aligned, padded on the left with zero bytes:
  the two zero bytes come back as part of that padding, of which the first byte is
  dropped. The result starts with exactly two zero bytes when the payload has 22 bytes
  and a first byte other than zero.
\<close>

theorem decode_base58_encode_base58_two_zeros:
  "(length payload \<le> 23 \<longrightarrow>
      py_bind (encode_base58_text ([0, 0] @ payload)) decode_base58
        = Inr (take 20 (drop 1 (replicate (23 - length payload) 0 @ [0, 0] @ payload))))
   \<and> (length payload = 22 \<and> hd payload \<noteq> 0 \<longrightarrow>
        (\<exists>r. py_bind (encode_base58_text ([0, 0] @ payload)) decode_base58 = Inr r
           \<and> count_zeros r = 2))"
proof (intro conjI impI)
  assume "length payload \<le> 23"
  then show "py_bind (encode_base58_text ([0, 0] @ payload)) decode_base58
        = Inr (take 20 (drop 1 (replicate (23 - length payload) 0 @ [0, 0] @ payload)))"
    by (rule decode_encode_two_zeros)
next
  assume a: "length payload = 22 \<and> hd payload \<noteq> 0"
  then obtain p ps where p: "payload = p # ps" "p \<noteq> 0" by (cases payload) auto
  have "length payload \<le> 23" using a by simp
  then have "py_bind (encode_base58_text ([0, 0] @ payload)) decode_base58
        = Inr (take 20 (drop 1 (replicate (23 - length payload) 0 @ [0, 0] @ payload)))"
    by (rule decode_encode_two_zeros)
  moreover have "take 20 (drop 1 (replicate (23 - length payload) 0 @ [0, 0] @ payload))
      = 0 # 0 # p # take 17 ps"
  proof -
    have "23 - length payload = 1" using a by simp
    then have "replicate (23 - length payload) (0 :: byte) = [0]" by simp
    then have "drop 1 (replicate (23 - length payload) 0 @ [0, 0] @ payload)
        = 0 # 0 # p # ps"
      using p(1) by simp
    moreover have "take 20 (0 # 0 # p # ps) = 0 # 0 # p # take 17 ps"
      by (simp add: take_Cons')
    ultimately show ?thesis by (simp only:)
  qed
  moreover have "count_zeros (0 # 0 # p # take 17 ps) = 2" using p(2) by simp
  ultimately show "\<exists>r. py_bind (encode_base58_text ([0, 0] @ payload)) decode_base58 = Inr r
           \<and> count_zeros r = 2"
    by (intro exI [of _ "0 # 0 # p # take 17 ps"] conjI) (simp_all only:)
qed

theorem decode_base58_encode_base58_two_zeros_witness:
  "length (replicate 22 (1 :: byte)) \<le> 23
   \<and> length (replicate 22 (1 :: byte)) = 22 \<and> hd (replicate 22 (1 :: byte)) \<noteq> 0
   \<and> py_bind (encode_base58_text ([0, 0] @ replicate 22 1)) decode_base58
        = Inr ([0, 0] @ replicate 18 1)
   \<and> count_zeros ([0, 0] @ replicate 18 1) = 2"
proof -
  have l: "length (replicate 22 (1 :: byte)) \<le> 23" by simp
  have h: "length (replicate 22 (1 :: byte)) = 22 \<and> hd (replicate 22 (1 :: byte)) \<noteq> 0"
    by code_simp
  have "py_bind (encode_base58_text ([0, 0] @ replicate 22 1)) decode_base58
     = Inr (take 20 (drop 1 (replicate (23 - length (replicate 22 (1 :: byte))) 0
          @ [0, 0] @ replicate 22 1)))"
    using decode_base58_encode_base58_two_zeros [of "replicate 22 1"] l by blast
  moreover have "take 20 (drop 1 (replicate (23 - length (replicate 22 (1 :: byte))) 0
          @ [0, 0] @ replicate 22 1)) = [0, 0] @ replicate 18 (1 :: byte)"
    by code_simp
  ultimately have r: "py_bind (encode_base58_text ([0, 0] @ replicate 22 1)) decode_base58
        = Inr ([0, 0] @ replicate 18 1)"
    by (simp only:)
  have c: "count_zeros ([0, 0] @ replicate 18 1) = 2" by code_simp
  show ?thesis using l h r c by blast
qed

end
